theory Spec2Isabelle
  imports Main
begin

section \<open>The node model\<close>

text \<open>
  Query nodes are JavaScript objects, and the transform compares them with \<open>!==\<close>, by
  reference. A node is therefore an address into a store of node objects; two nodes are
  the same reference exactly when the addresses are equal. The store is total (every
  reference denotes an object), addresses below \<open>next_ref\<close> are the allocated ones, and
  allocation takes the address \<open>next_ref\<close>.
\<close>

type_synonym ref = nat

datatype kind = Root | Fragment | Field

record node =
  kind :: kind
  name :: string
  canHaveSubselections :: bool
  children :: "ref list"

record heap =
  store :: "ref \<Rightarrow> node"
  next_ref :: ref

text \<open>
  A method that calls back into handlers may fail to return (unbounded recursion); its
  result is \<open>None\<close> then, and otherwise the value together with the heap it leaves.
  A returned node is \<open>Some r\<close>; \<open>null\<close> (or \<open>undefined\<close>) is \<open>None\<close>.
\<close>

type_synonym 'a result = "('a \<times> heap) option"

type_synonym 's visitor = "ref \<Rightarrow> 's \<Rightarrow> heap \<Rightarrow> (ref option) result"

text \<open>
  Modelled from the spec: \<open>clone\<close> of the node model is not part of the source file. The
  spec gives it as the operation producing a new node of the same kind and metadata with
  the given replacement children.
\<close>

definition clone :: "ref \<Rightarrow> ref list \<Rightarrow> heap \<Rightarrow> ref \<times> heap" where
  "clone node newChildren h =
     (next_ref h,
      h\<lparr>store := (store h)(next_ref h := (store h node)\<lparr>children := newChildren\<rparr>),
        next_ref := Suc (next_ref h)\<rparr>)"

section \<open>The dispatch visitor\<close>

text \<open>
  Modelled from the spec: \<open>traverseChildren\<close> of the base visitor is not part of the source
  file. The spec gives it as invoking the callback once per child, in the original order of
  the child sequence, passing the child, its index and the original children sequence.
  The callback's captured variables are threaded as the state \<open>s\<close>.
\<close>

function traverseChildren_loop ::
  "(ref \<Rightarrow> nat \<Rightarrow> ref list \<Rightarrow> 'a \<Rightarrow> 'a option) \<Rightarrow> ref list \<Rightarrow> nat \<Rightarrow> 'a \<Rightarrow> 'a option" where
  "traverseChildren_loop callback cs index s =
     (if index < length cs then
        (case callback (cs ! index) index cs s of
           None \<Rightarrow> None
         | Some s' \<Rightarrow> traverseChildren_loop callback cs (Suc index) s')
      else Some s)"
  by pat_completeness auto
termination
  by (relation "measure (\<lambda>(callback, cs, index, s). length cs - index)") auto

declare traverseChildren_loop.simps [simp del]

definition traverseChildren ::
  "ref \<Rightarrow> (ref \<Rightarrow> nat \<Rightarrow> ref list \<Rightarrow> 'a \<times> heap \<Rightarrow> ('a \<times> heap) option) \<Rightarrow> 'a \<times> heap
     \<Rightarrow> ('a \<times> heap) option" where
  "traverseChildren node callback s =
     traverseChildren_loop callback (children (store (snd s) node)) 0 s"

section \<open>The rewrite engine\<close>

text \<open>
  The function passed to \<open>traverseChildren\<close> in \<open>traverse\<close>. It closes over \<open>nextChildren\<close>
  (\<open>None\<close> while the variable is still undefined); the variable and the heap are its state.
  \<open>traverseChildren\<close> calls it with \<open>index < length children\<close> only, so \<open>children[index]\<close> is
  always an element. An array is truthy even when empty, and so is every node.
  The array \<open>nextChildren\<close> is local to one call of \<open>traverse\<close> and starts as a copy
  (\<open>slice\<close>), so it shares nothing with a node and no handler can reach it: it is a list
  value here, and \<open>push\<close> appends to that value.
\<close>

definition callback ::
  "'s visitor \<Rightarrow> 's \<Rightarrow> ref \<Rightarrow> nat \<Rightarrow> ref list \<Rightarrow> ref list option \<times> heap
     \<Rightarrow> (ref list option \<times> heap) option" where
  "callback visit nextState child index children0 s =
     (let prevChild = children0 ! index in
      case visit prevChild nextState (snd s) of
        None \<Rightarrow> None
      | Some (nextChild, h') \<Rightarrow>
          let nextChildren1 =
                (if nextChild \<noteq> Some prevChild then
                   (case fst s of Some acc \<Rightarrow> Some acc | None \<Rightarrow> Some (take index children0))
                 else fst s);
              nextChildren2 =
                (case nextChildren1 of
                   Some acc \<Rightarrow> (case nextChild of Some c \<Rightarrow> Some (acc @ [c]) | None \<Rightarrow> Some acc)
                 | None \<Rightarrow> None)
          in Some (nextChildren2, h'))"

definition traverse :: "'s visitor \<Rightarrow> ref \<Rightarrow> 's \<Rightarrow> heap \<Rightarrow> (ref option) result" where
  "traverse visit node nextState h =
     (if \<not> canHaveSubselections (store h node) then Some (Some node, h)
      else
        case traverseChildren node (callback visit nextState) (None, h) of
          None \<Rightarrow> None
        | Some (nextChildren, h') \<Rightarrow>
            (case nextChildren of
               Some cs \<Rightarrow>
                 if length cs = 0 then Some (None, h')
                 else (case clone node cs h' of (r, h'') \<Rightarrow> Some (Some r, h''))
             | None \<Rightarrow> Some (Some node, h')))"

text \<open>
  Modelled from the spec: \<open>visit\<close> and the per-kind handlers belong to the base visitor,
  which is not part of the source file. The spec gives \<open>visit\<close> as determining the node's
  kind, invoking the handler registered for that kind and returning its result unchanged,
  and the default handler as calling \<open>traverse\<close> and returning its result verbatim. A
  handler reaches \<open>traverse\<close> through \<open>this\<close>; here it receives it as its first argument.
  The handlers carry the names of the source's comment (\<open>visitField\<close>, \<open>visitFragment\<close>,
  \<open>visitRoot\<close>); the spec calls them \<open>onField\<close>, \<open>onFragment\<close> and \<open>onRoot\<close>.
\<close>

type_synonym 's handler = "'s visitor \<Rightarrow> 's visitor"

record 's handlers =
  visitRoot :: "'s handler"
  visitFragment :: "'s handler"
  visitField :: "'s handler"

definition visit :: "'s handlers \<Rightarrow> 's visitor \<Rightarrow> 's visitor" where
  "visit H this_traverse node nextState h =
     (case kind (store h node) of
        Field \<Rightarrow> visitField H this_traverse node nextState h
      | Fragment \<Rightarrow> visitFragment H this_traverse node nextState h
      | Root \<Rightarrow> visitRoot H this_traverse node nextState h)"

definition default_handlers :: "'s handlers" where
  "default_handlers =
     \<lparr>visitRoot = (\<lambda>this_traverse. this_traverse),
      visitFragment = (\<lambda>this_traverse. this_traverse),
      visitField = (\<lambda>this_traverse. this_traverse)\<rparr>"

text \<open>
  \<open>traverse\<close> calls \<open>this.visit\<close>, whose handlers call \<open>this.traverse\<close>: the two methods of
  one object. \<open>traverse_rec n H\<close> is the method \<open>traverse\<close> of the transform with handlers
  \<open>H\<close>, allowed \<open>n\<close> nested \<open>traverse\<close> frames; it is \<open>None\<close> when these do not suffice.
  \<open>visit_rec n H\<close> is the method \<open>visit\<close> of the same object.
\<close>

primrec traverse_rec :: "nat \<Rightarrow> 's handlers \<Rightarrow> 's visitor" where
  "traverse_rec 0 H = (\<lambda>node nextState h. None)"
| "traverse_rec (Suc n) H = traverse (visit H (traverse_rec n H))"

definition visit_rec :: "nat \<Rightarrow> 's handlers \<Rightarrow> 's visitor" where
  "visit_rec n H = visit H (traverse_rec n H)"

text \<open>
  A transform that rewrites one node, as the spec allows a handler to do: the handlers
  return for the node \<open>x\<close> what \<open>repl\<close> gives in the current heap (nothing, to delete it, or a
  replacement), without calling \<open>traverse\<close>, and are the default handlers on every other
  node.
\<close>

definition override_at :: "ref \<Rightarrow> (heap \<Rightarrow> (ref option) result) \<Rightarrow> 's handler" where
  "override_at x repl this_traverse node nextState h =
     (if node = x then repl h else this_traverse node nextState h)"

definition rewrite_handlers :: "ref \<Rightarrow> (heap \<Rightarrow> (ref option) result) \<Rightarrow> 's handlers" where
  "rewrite_handlers x repl =
     \<lparr>visitRoot = override_at x repl,
      visitFragment = override_at x repl,
      visitField = override_at x repl\<rparr>"

definition delete_it :: "heap \<Rightarrow> (ref option) result" where
  "delete_it h = Some (None, h)"

definition replace_by_clone :: "ref \<Rightarrow> ref list \<Rightarrow> heap \<Rightarrow> (ref option) result" where
  "replace_by_clone x cs h = (case clone x cs h of (r, h') \<Rightarrow> Some (Some r, h'))"

text \<open>Visiting a node and then visiting the result again.\<close>

definition twice :: "'s visitor \<Rightarrow> 's visitor" where
  "twice v node st h =
     (case v node st h of
        None \<Rightarrow> None
      | Some (None, h1) \<Rightarrow> Some (None, h1)
      | Some (Some r1, h1) \<Rightarrow> v r1 st h1)"

section \<open>The rewrite engine with arrays in memory\<close>

text \<open>
  A second, finer embedding of the same source lines, for the question what \<open>traverse\<close>
  writes to. Here an array is an object of its own: a node holds a reference to its
  children array (what \<open>getChildren\<close> returns), \<open>slice\<close> allocates a new array, and \<open>push\<close>
  writes to the array it is given, in place. Whether the accumulator is the node's own
  array or a copy of it makes a difference in this memory, which it cannot in a list value.
\<close>

type_synonym aref = nat

record object =
  obj_kind :: kind
  obj_name :: string
  obj_canHaveSubselections :: bool
  getChildren :: aref

record memory =
  objects :: "ref \<Rightarrow> object"
  arrays :: "aref \<Rightarrow> ref list"
  next_object :: ref
  next_array :: aref

type_synonym 's mvisitor = "ref \<Rightarrow> 's \<Rightarrow> memory \<Rightarrow> (ref option \<times> memory) option"

text \<open>\<open>children.slice(0, index)\<close> and \<open>nextChildren.push(nextChild)\<close> of JavaScript arrays.\<close>

definition slice :: "aref \<Rightarrow> nat \<Rightarrow> memory \<Rightarrow> aref \<times> memory" where
  "slice a index m =
     (next_array m,
      m\<lparr>arrays := (arrays m)(next_array m := take index (arrays m a)),
        next_array := Suc (next_array m)\<rparr>)"

definition push :: "aref \<Rightarrow> ref \<Rightarrow> memory \<Rightarrow> memory" where
  "push a x m = m\<lparr>arrays := (arrays m)(a := arrays m a @ [x])\<rparr>"

text \<open>
  Modelled from the spec: \<open>clone\<close> of the node model, as above, now taking the children as
  the array it is given.
\<close>

definition clone_m :: "ref \<Rightarrow> aref \<Rightarrow> memory \<Rightarrow> ref \<times> memory" where
  "clone_m node newChildren m =
     (next_object m,
      m\<lparr>objects := (objects m)(next_object m := (objects m node)\<lparr>getChildren := newChildren\<rparr>),
        next_object := Suc (next_object m)\<rparr>)"

text \<open>
  Modelled from the spec: \<open>traverseChildren\<close> of the base visitor, as above: once per child
  of the sequence as it is when the loop starts, passing the child, its index and the
  children array itself.
\<close>

function traverseChildren_m_loop ::
  "(ref \<Rightarrow> nat \<Rightarrow> aref \<Rightarrow> 'a \<times> memory \<Rightarrow> ('a \<times> memory) option) \<Rightarrow> aref \<Rightarrow> nat \<Rightarrow> nat
     \<Rightarrow> 'a \<times> memory \<Rightarrow> ('a \<times> memory) option" where
  "traverseChildren_m_loop cb children0 n index s =
     (if index < n then
        (case cb (arrays (snd s) children0 ! index) index children0 s of
           None \<Rightarrow> None
         | Some s' \<Rightarrow> traverseChildren_m_loop cb children0 n (Suc index) s')
      else Some s)"
  by pat_completeness auto
termination
  by (relation "measure (\<lambda>(cb, children0, n, index, s). n - index)") auto

declare traverseChildren_m_loop.simps [simp del]

definition traverseChildren_m ::
  "ref \<Rightarrow> (ref \<Rightarrow> nat \<Rightarrow> aref \<Rightarrow> 'a \<times> memory \<Rightarrow> ('a \<times> memory) option) \<Rightarrow> 'a \<times> memory
     \<Rightarrow> ('a \<times> memory) option" where
  "traverseChildren_m node cb s =
     (let children0 = getChildren (objects (snd s) node)
      in traverseChildren_m_loop cb children0 (length (arrays (snd s) children0)) 0 s)"

text \<open>
  The callback and \<open>traverse\<close>, statement by statement as before. \<open>children[index]\<close> is read
  from memory when the callback runs; were the index outside the array (a handler has
  shortened it), JavaScript would pass \<open>undefined\<close> to \<open>visit\<close>, which the spec does not
  cover: the run has no result then.
\<close>

definition callback_m ::
  "'s mvisitor \<Rightarrow> 's \<Rightarrow> ref \<Rightarrow> nat \<Rightarrow> aref \<Rightarrow> aref option \<times> memory
     \<Rightarrow> (aref option \<times> memory) option" where
  "callback_m this_visit nextState child index children0 s =
     (if \<not> index < length (arrays (snd s) children0) then None
      else
        let prevChild = arrays (snd s) children0 ! index in
        case this_visit prevChild nextState (snd s) of
          None \<Rightarrow> None
        | Some (nextChild, m1) \<Rightarrow>
            (case (if nextChild \<noteq> Some prevChild then
                     (case fst s of
                        Some acc \<Rightarrow> (Some acc, m1)
                      | None \<Rightarrow> (case slice children0 index m1 of (acc, m2) \<Rightarrow> (Some acc, m2)))
                   else (fst s, m1)) of
               (nextChildren, m2) \<Rightarrow>
                 (case nextChildren of
                    Some acc \<Rightarrow>
                      (case nextChild of
                         Some c \<Rightarrow> Some (Some acc, push acc c m2)
                       | None \<Rightarrow> Some (Some acc, m2))
                  | None \<Rightarrow> Some (None, m2))))"

definition traverse_m :: "'s mvisitor \<Rightarrow> ref \<Rightarrow> 's \<Rightarrow> memory \<Rightarrow> (ref option \<times> memory) option" where
  "traverse_m this_visit node nextState m =
     (if \<not> obj_canHaveSubselections (objects m node) then Some (Some node, m)
      else
        case traverseChildren_m node (callback_m this_visit nextState) (None, m) of
          None \<Rightarrow> None
        | Some (nextChildren, m') \<Rightarrow>
            (case nextChildren of
               Some acc \<Rightarrow>
                 if length (arrays m' acc) = 0 then Some (None, m')
                 else (case clone_m node acc m' of (r, m'') \<Rightarrow> Some (Some r, m''))
             | None \<Rightarrow> Some (Some node, m')))"

section \<open>Specification vocabulary\<close>

text \<open>
  The results of visiting the children \<open>cs\<close> one after the other, each visit starting in
  the heap the previous one left.
\<close>

fun visit_seq :: "'s visitor \<Rightarrow> 's \<Rightarrow> ref list \<Rightarrow> heap \<Rightarrow> (ref option list) result" where
  "visit_seq v st [] h = Some ([], h)"
| "visit_seq v st (c # cs) h =
     (case v c st h of
        None \<Rightarrow> None
      | Some (r, h1) \<Rightarrow>
          (case visit_seq v st cs h1 of
             None \<Rightarrow> None
           | Some (rs, h2) \<Rightarrow> Some (r # rs, h2)))"

text \<open>The results that are nodes, in the order of the results.\<close>

fun survivors :: "ref option list \<Rightarrow> ref list" where
  "survivors [] = []"
| "survivors (None # rs) = survivors rs"
| "survivors (Some c # rs) = c # survivors rs"

text \<open>
  \<open>frame h h'\<close>: every node allocated in \<open>h\<close> is the same object, field by field, in \<open>h'\<close>;
  \<open>h'\<close> may hold further nodes.
\<close>

definition frame :: "heap \<Rightarrow> heap \<Rightarrow> bool" where
  "frame h h' = (next_ref h \<le> next_ref h' \<and> (\<forall>a < next_ref h. store h' a = store h a))"

text \<open>
  The first position where the visit result is not the child itself, if there is one.
\<close>

fun first_differing :: "ref list \<Rightarrow> ref option list \<Rightarrow> nat option" where
  "first_differing (c # cs) (r # rs) =
     (if r \<noteq> Some c then Some 0 else map_option Suc (first_differing cs rs))"
| "first_differing cs rs = None"

text \<open>
  \<open>frame_m m m'\<close>: every node and every array allocated in \<open>m\<close> is the same in \<open>m'\<close>.
  \<open>fresh_acc m s\<close>: in the state \<open>s\<close> of the callback the memory is such an \<open>m'\<close>, and the
  accumulator, once started, is an array allocated after \<open>m\<close>.
\<close>

definition frame_m :: "memory \<Rightarrow> memory \<Rightarrow> bool" where
  "frame_m m m' =
     (next_object m \<le> next_object m' \<and> next_array m \<le> next_array m'
      \<and> (\<forall>r < next_object m. objects m' r = objects m r)
      \<and> (\<forall>a < next_array m. arrays m' a = arrays m a))"


text \<open>
  \<open>heap_of m\<close> reads a memory as a heap of the first embedding: every node with the list
  that its children array holds. A \<open>visit\<close> method that computes its result from the node
  and the state alone, in either embedding.
\<close>

definition heap_of :: "memory \<Rightarrow> heap" where
  "heap_of m =
     \<lparr>store = (\<lambda>r. \<lparr>kind = obj_kind (objects m r), name = obj_name (objects m r),
                    canHaveSubselections = obj_canHaveSubselections (objects m r),
                    children = arrays m (getChildren (objects m r))\<rparr>),
      next_ref = next_object m\<rparr>"

definition stateless :: "(ref \<Rightarrow> 's \<Rightarrow> ref option) \<Rightarrow> 's visitor" where
  "stateless f c st h = Some (f c st, h)"

definition stateless_m :: "(ref \<Rightarrow> 's \<Rightarrow> ref option) \<Rightarrow> 's mvisitor" where
  "stateless_m f c st m = Some (f c st, m)"

text \<open>
  A finite tree of references. \<open>reprs h t\<close>: the nodes of the heap reachable from the root
  of \<open>t\<close> through subselections form the tree \<open>t\<close>. \<open>levels\<close> is the number of nodes on
  the longest path from the root to a leaf.
\<close>

datatype tree = Tree (root: ref) (subtrees: "tree list")

fun reprs :: "heap \<Rightarrow> tree \<Rightarrow> bool" where
  "reprs h (Tree r ts) =
     (if canHaveSubselections (store h r)
      then map root ts = children (store h r) \<and> (\<forall>t \<in> set ts. reprs h t)
      else ts = [])"

fun levels :: "tree \<Rightarrow> nat" where
  "levels (Tree r ts) = Suc (fold max (map levels ts) 0)"

fun refs :: "tree \<Rightarrow> ref list" where
  "refs (Tree r ts) = r # concat (map refs ts)"

text \<open>
  \<open>only_at x t p\<close>: following the child positions \<open>p\<close> from the root of \<open>t\<close> leads to the
  node \<open>x\<close>, and \<open>x\<close> is neither an ancestor on that path nor in a sibling subtree of it.
  The depth of \<open>x\<close> below the root is \<open>length p\<close>. \<open>siblings_at t p\<close> is the number of
  children of the parent of the node at \<open>p\<close>.
\<close>

fun only_at :: "ref \<Rightarrow> tree \<Rightarrow> nat list \<Rightarrow> bool" where
  "only_at x t [] = (root t = x)"
| "only_at x t (i # p) =
     (root t \<noteq> x \<and> i < length (subtrees t) \<and> only_at x (subtrees t ! i) p
      \<and> x \<notin> set (concat (map refs (take i (subtrees t))))
      \<and> x \<notin> set (concat (map refs (drop (Suc i) (subtrees t)))))"

fun siblings_at :: "tree \<Rightarrow> nat list \<Rightarrow> nat" where
  "siblings_at t [] = 0"
| "siblings_at t [i] = length (subtrees t)"
| "siblings_at t (i # j # p) = siblings_at (subtrees t ! i) (j # p)"

text \<open>
  \<open>cloned_from h h' r r'\<close>: \<open>r'\<close> is a node allocated after \<open>h\<close> that has the kind and
  metadata of \<open>r\<close>. \<open>rewritten h h' t p ro r'\<close>: \<open>r'\<close> is the rewritten \<open>t\<close> when the node at
  \<open>p\<close> became \<open>ro\<close>: on each level of the path the node is a new one, the child on the
  path is the rewritten child (left out at the last level when \<open>ro\<close> is nothing), and every
  other child is the original reference.
\<close>

definition cloned_from :: "heap \<Rightarrow> heap \<Rightarrow> ref \<Rightarrow> ref \<Rightarrow> bool" where
  "cloned_from h h' r r' =
     (next_ref h \<le> r' \<and> r' < next_ref h'
      \<and> store h' r' = (store h r)\<lparr>children := children (store h' r')\<rparr>)"

fun rewritten :: "heap \<Rightarrow> heap \<Rightarrow> tree \<Rightarrow> nat list \<Rightarrow> ref option \<Rightarrow> ref \<Rightarrow> bool" where
  "rewritten h h' t [] ro r' = False"
| "rewritten h h' t [i] ro r' =
     (cloned_from h h' (root t) r'
      \<and> children (store h' r') =
          take i (map root (subtrees t)) @ survivors [ro] @ drop (Suc i) (map root (subtrees t)))"
| "rewritten h h' t (i # j # p) ro r' =
     (cloned_from h h' (root t) r'
      \<and> children (store h' r') = (map root (subtrees t))[i := children (store h' r') ! i]
      \<and> rewritten h h' (subtrees t ! i) (j # p) ro (children (store h' r') ! i))"

text \<open>
  The heap of the examples: the query \<open>Root[FieldA, FragmentB[FieldC, FieldD]]\<close> at the
  references 0 to 4, a fragment with the three children \<open>[FieldA, FieldC, FieldD]\<close> at 5 and
  a fragment with the only child \<open>FieldC\<close> at 6.
\<close>

definition example_heap :: heap where
  "example_heap =
     \<lparr>store = (\<lambda>a. \<lparr>kind = Field, name = ''unused'', canHaveSubselections = False, children = []\<rparr>)
        (0 := \<lparr>kind = Root, name = ''Root'', canHaveSubselections = True, children = [1, 2]\<rparr>,
         1 := \<lparr>kind = Field, name = ''FieldA'', canHaveSubselections = False, children = []\<rparr>,
         2 := \<lparr>kind = Fragment, name = ''FragmentB'', canHaveSubselections = True, children = [3, 4]\<rparr>,
         3 := \<lparr>kind = Field, name = ''FieldC'', canHaveSubselections = False, children = []\<rparr>,
         4 := \<lparr>kind = Field, name = ''FieldD'', canHaveSubselections = False, children = []\<rparr>,
         5 := \<lparr>kind = Fragment, name = ''Three'', canHaveSubselections = True, children = [1, 3, 4]\<rparr>,
         6 := \<lparr>kind = Fragment, name = ''One'', canHaveSubselections = True, children = [3]\<rparr>),
      next_ref = 7\<rparr>"

text \<open>A \<open>visit\<close> method that deletes \<open>FieldC\<close> and returns every other node as it is.\<close>

definition example_visit :: "unit visitor" where
  "example_visit c st h = (if c = 3 then Some (None, h) else Some (Some c, h))"

definition example_tree :: tree where
  "example_tree = Tree 0 [Tree 1 [], Tree 2 [Tree 3 [], Tree 4 []]]"

text \<open>
  The heap expected after deleting \<open>FieldC\<close> from the query at 0: \<open>FragmentB'[FieldD]\<close> at
  7 and \<open>Root'[FieldA, FragmentB']\<close> at 8.
\<close>

definition example_result :: heap where
  "example_result =
     \<lparr>store = (store example_heap)
        (7 := \<lparr>kind = Fragment, name = ''FragmentB'', canHaveSubselections = True, children = [4]\<rparr>,
         8 := \<lparr>kind = Root, name = ''Root'', canHaveSubselections = True, children = [1, 7]\<rparr>),
      next_ref = 9\<rparr>"

text \<open>A \<open>visit\<close> method that returns every node as it is.\<close>

definition identity_visit :: "unit visitor" where
  "identity_visit c st h = Some (Some c, h)"

text \<open>
  The nodes of the example heap in a memory with arrays (the children of node \<open>r\<close> are the
  array \<open>r\<close>), the \<open>visit\<close> method that deletes \<open>FieldC\<close>, and the memory expected after
  \<open>traverse\<close> on node 5: the array 7 is the accumulator, the node 7 the clone.
\<close>

definition example_memory :: memory where
  "example_memory =
     \<lparr>objects = (\<lambda>r. \<lparr>obj_kind = Field, obj_name = ''unused'', obj_canHaveSubselections = False, getChildren = 1\<rparr>)
        (0 := \<lparr>obj_kind = Root, obj_name = ''Root'', obj_canHaveSubselections = True, getChildren = 0\<rparr>,
         1 := \<lparr>obj_kind = Field, obj_name = ''FieldA'', obj_canHaveSubselections = False, getChildren = 1\<rparr>,
         2 := \<lparr>obj_kind = Fragment, obj_name = ''FragmentB'', obj_canHaveSubselections = True, getChildren = 2\<rparr>,
         3 := \<lparr>obj_kind = Field, obj_name = ''FieldC'', obj_canHaveSubselections = False, getChildren = 3\<rparr>,
         4 := \<lparr>obj_kind = Field, obj_name = ''FieldD'', obj_canHaveSubselections = False, getChildren = 4\<rparr>,
         5 := \<lparr>obj_kind = Fragment, obj_name = ''Three'', obj_canHaveSubselections = True, getChildren = 5\<rparr>,
         6 := \<lparr>obj_kind = Fragment, obj_name = ''One'', obj_canHaveSubselections = True, getChildren = 6\<rparr>),
      arrays = (\<lambda>a. [])(0 := [1, 2], 2 := [3, 4], 5 := [1, 3, 4], 6 := [3]),
      next_object = 7,
      next_array = 7\<rparr>"




section \<open>The loop of \<open>traverse\<close>\<close>

lemma survivors_map_Some [simp]: "survivors (map Some cs) = cs"
  by (induction cs) auto

lemma survivors_append [simp]: "survivors (xs @ ys) = survivors xs @ survivors ys"
  by (induction xs rule: survivors.induct) auto

lemma visit_seq_length: "visit_seq v st cs h = Some (rs, h') \<Longrightarrow> length rs = length cs"
  by (induction cs arbitrary: h rs) (auto split: option.splits)

text \<open>
  The loop from position \<open>i\<close> on, in terms of the visit results of the children from \<open>i\<close> on:
  a started accumulator receives the surviving results; an accumulator not started stays so
  while the results are the children themselves, and otherwise starts from the children
  before \<open>i\<close>.
\<close>

lemma loop_char:
  "traverseChildren_loop (callback v st) cs i (acc, h) =
     (case visit_seq v st (drop i cs) h of
        None \<Rightarrow> None
      | Some (rs, h') \<Rightarrow>
          Some (case acc of
                  Some a \<Rightarrow> Some (a @ survivors rs)
                | None \<Rightarrow> if rs = map Some (drop i cs) then None
                          else Some (take i cs @ survivors rs), h'))"
proof (induction "length cs - i" arbitrary: i acc h)
  case 0
  then show ?case by (simp add: traverseChildren_loop.simps split: option.splits)
next
  case (Suc k)
  then have lt: "i < length cs" and k: "k = length cs - Suc i" by auto
  have dr: "drop i cs = cs ! i # drop (Suc i) cs"
    using lt by (simp add: Cons_nth_drop_Suc)
  have tk: "take (Suc i) cs = take i cs @ [cs ! i]"
    using lt by (simp add: take_Suc_conv_app_nth)
  show ?case
  proof (cases "v (cs ! i) st h")
    case None
    then show ?thesis using lt dr
      by (simp add: traverseChildren_loop.simps[of _ cs i] callback_def)
  next
    case (Some p)
    obtain r h1 where p: "p = (r, h1)" by (cases p)
    show ?thesis
      using lt Some p
      apply (subst traverseChildren_loop.simps)
      apply (simp add: callback_def Let_def dr Suc.hyps(1)[OF k] tk split: option.splits)
      done
  qed
qed

lemma traverseChildren_char:
  "traverseChildren node (callback v st) (None, h) =
     (case visit_seq v st (children (store h node)) h of
        None \<Rightarrow> None
      | Some (rs, h') \<Rightarrow>
          Some (if rs = map Some (children (store h node)) then None
                else Some (survivors rs), h'))"
  by (simp add: traverseChildren_def loop_char split: option.splits)

lemma traverse_char:
  "canHaveSubselections (store h node) \<Longrightarrow>
   traverse v node st h =
     (case visit_seq v st (children (store h node)) h of
        None \<Rightarrow> None
      | Some (rs, h') \<Rightarrow>
          if rs = map Some (children (store h node)) then Some (Some node, h')
          else if survivors rs = [] then Some (None, h')
          else Some (Some (fst (clone node (survivors rs) h')),
                     snd (clone node (survivors rs) h')))"
  by (simp add: traverse_def traverseChildren_char split: option.splits prod.splits)

lemma first_differing_None:
  "length rs = length cs \<Longrightarrow> first_differing cs rs = None \<longleftrightarrow> rs = map Some cs"
  by (induction cs rs rule: first_differing.induct) auto

lemma first_differing_Some:
  "length rs = length cs \<Longrightarrow> first_differing cs rs = Some i \<Longrightarrow>
     survivors rs = take i cs @ survivors (drop i rs)"
proof (induction cs rs arbitrary: i rule: first_differing.induct)
  case (1 c cs r rs)
  then show ?case by (cases "r = Some c") (auto split: if_splits)
qed auto

lemma survivors_positions:
  "survivors rs = map (\<lambda>i. the (rs ! i)) (filter (\<lambda>i. rs ! i \<noteq> None) [0..<length rs])"
proof (induction rs rule: rev_induct)
  case Nil
  then show ?case by simp
next
  case (snoc r rs)
  have a: "filter (\<lambda>i. (rs @ [r]) ! i \<noteq> None) [0..<length rs]
             = filter (\<lambda>i. rs ! i \<noteq> None) [0..<length rs]"
    by (rule filter_cong) (auto simp: nth_append)
  have b: "map (\<lambda>i. the ((rs @ [r]) ! i)) (filter (\<lambda>i. rs ! i \<noteq> None) [0..<length rs])
             = map (\<lambda>i. the (rs ! i)) (filter (\<lambda>i. rs ! i \<noteq> None) [0..<length rs])"
    by (rule map_cong) (auto simp: nth_append)
  show ?case using snoc a b by (cases r) auto
qed

lemma clone_fst [simp]: "fst (clone node cs h) = next_ref h"
  by (simp add: clone_def)

lemma clone_children [simp]: "children (store (snd (clone node cs h)) (next_ref h)) = cs"
  by (simp add: clone_def)

lemma clone_next_ref [simp]: "next_ref (snd (clone node cs h)) = Suc (next_ref h)"
  by (simp add: clone_def)

lemma frame_refl [simp]: "frame h h"
  by (simp add: frame_def)

lemma frame_trans: "frame h1 h2 \<Longrightarrow> frame h2 h3 \<Longrightarrow> frame h1 h3"
  by (auto simp: frame_def)

lemma frame_clone: "frame h (snd (clone node cs h))"
  by (simp add: frame_def clone_def)

lemma visit_seq_frame:
  assumes "\<And>c h1 r h2. c \<in> set cs \<Longrightarrow> v c st h1 = Some (r, h2) \<Longrightarrow> frame h1 h2"
    and "visit_seq v st cs h = Some (rs, h')"
  shows "frame h h'"
  using assms
proof (induction cs arbitrary: h rs)
  case Nil
  then show ?case by simp
next
  case (Cons c cs)
  from Cons.prems(2) obtain r h1 rs' where
    v: "v c st h = Some (r, h1)" and s: "visit_seq v st cs h1 = Some (rs', h')"
    by (auto split: option.splits)
  have "frame h h1" using Cons.prems(1)[OF _ v] by simp
  moreover have "frame h1 h'"
  proof (rule Cons.IH[OF _ s])
    fix c' ha r' hb
    assume "c' \<in> set cs" "v c' st ha = Some (r', hb)"
    then show "frame ha hb" using Cons.prems(1)[of c' ha r' hb] by simp
  qed
  ultimately show ?case by (rule frame_trans)
qed

lemma traverse_no_subselections:
  "\<not> canHaveSubselections (store h node) \<Longrightarrow> traverse v node st h = Some (Some node, h)"
  by (simp add: traverse_def)

lemma traverse_frame_step:
  assumes v: "\<And>c h1 r h2. c \<in> set (children (store h node)) \<Longrightarrow> v c st h1 = Some (r, h2) \<Longrightarrow> frame h1 h2"
    and t: "traverse v node st h = Some (res, h')"
  shows "frame h h'"
proof (cases "canHaveSubselections (store h node)")
  case False
  then show ?thesis using t by (simp add: traverse_no_subselections)
next
  case True
  from t True obtain rs h1 where
    s: "visit_seq v st (children (store h node)) h = Some (rs, h1)"
    and h': "h' = h1 \<or> h' = snd (clone node (survivors rs) h1)"
    by (auto simp: traverse_char split: option.splits if_splits)
  have "frame h h1" using visit_seq_frame[OF v s] by simp
  moreover have "frame h1 h'" using h' frame_clone by auto
  ultimately show ?thesis by (rule frame_trans)
qed

lemma survivors_Nil_iff: "survivors rs = [] \<longleftrightarrow> (\<forall>r \<in> set rs. r = None)"
  by (induction rs rule: survivors.induct) auto

section \<open>The recursion through the handlers\<close>

lemma visit_default [simp]: "visit default_handlers trav node st h = trav node st h"
  by (simp add: visit_def default_handlers_def split: kind.splits)

lemma fold_max_le: "fold max xs (a::nat) \<le> n \<longleftrightarrow> a \<le> n \<and> (\<forall>x \<in> set xs. x \<le> n)"
  by (induction xs arbitrary: a) auto

lemma levels_le_Suc: "levels (Tree r ts) \<le> Suc n \<longleftrightarrow> (\<forall>t \<in> set ts. levels t \<le> n)"
  by (simp add: fold_max_le)

lemma levels_pos: "0 < levels t"
  by (cases t) simp

lemma visit_seq_unchanged:
  assumes "\<And>t. t \<in> set ts \<Longrightarrow> v (root t) st h = (if P t then Some (Some (root t), h) else None)"
  shows "visit_seq v st (map root ts) h =
           (if \<forall>t \<in> set ts. P t then Some (map Some (map root ts), h) else None)"
  using assms by (induction ts) auto

lemma traverse_rec_unchanged:
  assumes H: "\<And>node trav st' h'. node \<in> set (refs t) \<Longrightarrow> visit H trav node st' h' = trav node st' h'"
    and r: "reprs h t"
  shows "traverse_rec n H (root t) st h =
           (if levels t \<le> n then Some (Some (root t), h) else None)"
  using H r
proof (induction n arbitrary: t)
  case 0
  then show ?case using levels_pos[of t] by simp
next
  case (Suc n)
  obtain r ts where t: "t = Tree r ts" by (cases t)
  show ?case
  proof (cases "canHaveSubselections (store h r)")
    case False
    then show ?thesis using Suc.prems(2) t
      by (simp add: traverse_no_subselections)
  next
    case True
    have cs: "children (store h r) = map root ts" and sub: "\<forall>t' \<in> set ts. reprs h t'"
      using Suc.prems(2) True t by auto
    have each: "visit H (traverse_rec n H) (root t') st h =
                  (if levels t' \<le> n then Some (Some (root t'), h) else None)"
      if t': "t' \<in> set ts" for t'
    proof -
      have in_t: "set (refs t') \<subseteq> set (refs t)" using t t' by auto
      have "root t' \<in> set (refs t')" by (cases t') simp
      then have "visit H (traverse_rec n H) (root t') st h = traverse_rec n H (root t') st h"
        using Suc.prems(1) in_t by blast
      also have "\<dots> = (if levels t' \<le> n then Some (Some (root t'), h) else None)"
        using Suc.IH[of t'] Suc.prems(1) in_t sub t' by blast
      finally show ?thesis .
    qed
    have "visit_seq (visit H (traverse_rec n H)) st (map root ts) h =
            (if \<forall>t' \<in> set ts. levels t' \<le> n then Some (map Some (map root ts), h) else None)"
      using each by (rule visit_seq_unchanged)
    then show ?thesis using True cs t
      by (simp add: traverse_char levels_le_Suc del: levels.simps)
  qed
qed

lemma traverse_rec_default:
  "reprs h t \<Longrightarrow> traverse_rec n default_handlers (root t) st h =
           (if levels t \<le> n then Some (Some (root t), h) else None)"
  by (rule traverse_rec_unchanged) simp_all

lemma visit_rewrite:
  "visit (rewrite_handlers x repl) trav node st h = (if node = x then repl h else trav node st h)"
  by (simp add: visit_def rewrite_handlers_def override_at_def split: kind.splits)

lemma visit_seq_append:
  "visit_seq v st (xs @ ys) h =
     (case visit_seq v st xs h of
        None \<Rightarrow> None
      | Some (rs1, h1) \<Rightarrow>
          (case visit_seq v st ys h1 of
             None \<Rightarrow> None
           | Some (rs2, h2) \<Rightarrow> Some (rs1 @ rs2, h2)))"
  by (induction xs arbitrary: h) (auto split: option.splits)

lemma root_in_refs: "root t \<in> set (refs t)"
  by (cases t) simp

lemma reprs_frame:
  "frame h h' \<Longrightarrow> \<forall>a \<in> set (refs t). a < next_ref h \<Longrightarrow> reprs h t \<Longrightarrow> reprs h' t"
proof (induction t)
  case (Tree r ts)
  have eq: "store h' r = store h r" using Tree.prems(1,2) by (simp add: frame_def)
  show ?case
  proof (cases "canHaveSubselections (store h r)")
    case False
    then show ?thesis using Tree.prems(3) eq by simp
  next
    case True
    have "reprs h' t'" if "t' \<in> set ts" for t'
      using Tree.IH[OF that Tree.prems(1)] Tree.prems(2,3) True that by auto
    then show ?thesis using Tree.prems(3) True eq by simp
  qed
qed

lemma cloned_from_frame:
  "frame h1 h2 \<Longrightarrow> cloned_from h h1 r r' \<Longrightarrow> cloned_from h h2 r r'"
  by (auto simp: frame_def cloned_from_def)

lemma rewritten_frame:
  "frame h1 h2 \<Longrightarrow> rewritten h h1 t p ro r' \<Longrightarrow> rewritten h h2 t p ro r'"
proof (induction h h1 t p ro r' rule: rewritten.induct)
  case (1 h h' t ro r')
  then show ?case by simp
next
  case (2 h h' t i ro r')
  then have "store h2 r' = store h' r'" by (simp add: frame_def cloned_from_def)
  then show ?case using 2 cloned_from_frame[of h' h2 h "root t" r'] by simp
next
  case (3 h h' t i j p ro r')
  then have "store h2 r' = store h' r'" by (simp add: frame_def cloned_from_def)
  then show ?case using 3 cloned_from_frame[of h' h2 h "root t" r'] by simp
qed

lemma traverse_one_changed:
  assumes can: "canHaveSubselections (store h r)"
    and cs: "children (store h r) = cs"
    and i: "i < length cs"
    and before: "visit_seq v st (take i cs) h = Some (map Some (take i cs), h)"
    and at: "v (cs ! i) st h = Some (res, h1)"
    and ne: "res \<noteq> Some (cs ! i)"
    and after: "visit_seq v st (drop (Suc i) cs) h1 = Some (map Some (drop (Suc i) cs), h1)"
    and nonempty: "take i cs @ survivors [res] @ drop (Suc i) cs \<noteq> []"
  shows "traverse v r st h =
           Some (Some (next_ref h1),
                 snd (clone r (take i cs @ survivors [res] @ drop (Suc i) cs) h1))"
proof -
  let ?rs = "map Some (take i cs) @ res # map Some (drop (Suc i) cs)"
  have split: "cs = take i cs @ cs ! i # drop (Suc i) cs"
    using i by (rule id_take_nth_drop)
  have "visit_seq v st (take i cs @ cs ! i # drop (Suc i) cs) h = Some (?rs, h1)"
    using before at after by (simp add: visit_seq_append)
  then have seq: "visit_seq v st cs h = Some (?rs, h1)"
    using split by simp
  have "?rs ! i = res" using i by (simp add: nth_append)
  moreover have "map Some cs ! i = Some (cs ! i)" using i by simp
  ultimately have diff: "?rs \<noteq> map Some cs" using ne by metis
  have surv: "survivors ?rs = take i cs @ survivors [res] @ drop (Suc i) cs"
    by (cases res) simp_all
  show ?thesis
    using can cs seq diff nonempty surv by (simp add: traverse_char)
qed

lemma siblings_unchanged:
  assumes x: "x \<notin> set (concat (map refs ts'))"
    and reprs: "\<forall>t' \<in> set ts'. reprs g t'"
    and lv: "\<forall>t' \<in> set ts'. levels t' \<le> m"
  shows "visit_seq (visit (rewrite_handlers x repl) (traverse_rec m (rewrite_handlers x repl))) st
           (map root ts') g = Some (map Some (map root ts'), g)"
proof -
  let ?H = "rewrite_handlers x repl"
  have "visit ?H (traverse_rec m ?H) (root t') st g =
          (if True then Some (Some (root t'), g) else None)" if t': "t' \<in> set ts'" for t'
  proof -
    have notin: "x \<notin> set (refs t')" using x t' by auto
    then have "root t' \<noteq> x" using root_in_refs[of t'] by auto
    then have "visit ?H (traverse_rec m ?H) (root t') st g = traverse_rec m ?H (root t') st g"
      by (simp add: visit_rewrite)
    also have "\<dots> = (if levels t' \<le> m then Some (Some (root t'), g) else None)"
      using notin reprs t' by (intro traverse_rec_unchanged) (auto simp: visit_rewrite)
    finally show ?thesis using lv t' by simp
  qed
  then have "visit_seq (visit ?H (traverse_rec m ?H)) st (map root ts') g =
          (if \<forall>t' \<in> set ts'. True then Some (map Some (map root ts'), g) else None)"
    by (rule visit_seq_unchanged)
  then show ?thesis by simp
qed

lemma traverse_rec_rewrite:
  assumes repl: "repl h = Some (ro, hx)" and fr: "frame h hx" and ne: "ro \<noteq> Some x"
  shows "only_at x t p \<Longrightarrow> p \<noteq> [] \<Longrightarrow> reprs h t \<Longrightarrow> \<forall>a \<in> set (refs t). a < next_ref h
     \<Longrightarrow> levels t \<le> n \<Longrightarrow> (ro = None \<longrightarrow> 2 \<le> siblings_at t p)
     \<Longrightarrow> \<exists>h'. traverse_rec n (rewrite_handlers x repl) (root t) st h
                 = Some (Some (next_ref hx + length p - 1), h')
            \<and> next_ref h' = next_ref hx + length p \<and> frame hx h'
            \<and> rewritten h h' t p ro (next_ref hx + length p - 1)"
proof (induction p arbitrary: t n)
  case Nil
  then show ?case by simp
next
  case (Cons i q)
  let ?H = "rewrite_handlers x repl"
  obtain r ts where t: "t = Tree r ts" by (cases t)
  from Cons.prems(1) t have rx: "r \<noteq> x" and i: "i < length ts"
    and sub: "only_at x (ts ! i) q"
    and xb: "x \<notin> set (concat (map refs (take i ts)))"
    and xa: "x \<notin> set (concat (map refs (drop (Suc i) ts)))"
    by simp_all
  have ti: "ts ! i \<in> set ts" using i by simp
  have can: "canHaveSubselections (store h r)"
    using Cons.prems(3) t i by (auto split: if_splits)
  then have cs: "children (store h r) = map root ts" and rep: "\<forall>t' \<in> set ts. reprs h t'"
    using Cons.prems(3) t by auto
  obtain m where n: "n = Suc m"
    using Cons.prems(5) levels_pos[of t] by (cases n) auto
  have lv: "\<forall>t' \<in> set ts. levels t' \<le> m"
    using Cons.prems(5) t n levels_le_Suc by blast
  have alloc: "\<forall>t' \<in> set ts. \<forall>a \<in> set (refs t'). a < next_ref h"
    using Cons.prems(4) t by auto
  have r_alloc: "r < next_ref h" using Cons.prems(4) t by simp
  let ?cs = "map root ts"
  let ?v = "visit ?H (traverse_rec m ?H)"
  have ilen: "i < length ?cs" using i by simp
  have before: "visit_seq ?v st (take i ?cs) h = Some (map Some (take i ?cs), h)"
  proof -
    have "visit_seq ?v st (map root (take i ts)) h = Some (map Some (map root (take i ts)), h)"
      using xb rep lv by (intro siblings_unchanged) (auto dest: in_set_takeD)
    then show ?thesis by (simp add: take_map)
  qed
  have after: "visit_seq ?v st (drop (Suc i) ?cs) g = Some (map Some (drop (Suc i) ?cs), g)"
    if g: "frame h g" for g
  proof -
    have "\<forall>t' \<in> set (drop (Suc i) ts). reprs g t'"
      using rep alloc reprs_frame[OF g] by (auto dest: in_set_dropD)
    then have "visit_seq ?v st (map root (drop (Suc i) ts)) g
                 = Some (map Some (map root (drop (Suc i) ts)), g)"
      using xa lv by (intro siblings_unchanged) (auto dest: in_set_dropD)
    then show ?thesis by (simp add: drop_map)
  qed
  show ?case
  proof (cases q)
    case Nil
    have csi: "?cs ! i = x" using sub Nil i by simp
    have at: "?v (?cs ! i) st h = Some (ro, hx)"
      using csi repl by (simp add: visit_rewrite)
    have ne': "ro \<noteq> Some (?cs ! i)" using ne csi by simp
    let ?L = "take i ?cs @ survivors [ro] @ drop (Suc i) ?cs"
    have nonempty: "?L \<noteq> []"
    proof (cases ro)
      case None
      then have "2 \<le> length ts" using Cons.prems(6) Nil t by simp
      then have "length (take i ?cs @ drop (Suc i) ?cs) \<noteq> 0" using i by simp
      then show ?thesis using None by auto
    next
      case (Some y)
      then show ?thesis by simp
    qed
    let ?h' = "snd (clone r ?L hx)"
    have tr: "traverse ?v r st h = Some (Some (next_ref hx), ?h')"
      using can cs ilen before at ne' after[OF fr] nonempty
      by (rule traverse_one_changed)
    have old: "store hx r = store h r" using fr r_alloc by (simp add: frame_def)
    have cl: "cloned_from h ?h' r (next_ref hx)"
      using fr old by (simp add: cloned_from_def frame_def clone_def)
    have "rewritten h ?h' t [i] ro (next_ref hx)"
      using cl t by simp
    then show ?thesis
      using tr t n Nil frame_clone[of hx r ?L] by simp
  next
    case (Cons j q')
    have qne: "q \<noteq> []" using Cons by simp
    have sib: "ro = None \<longrightarrow> 2 \<le> siblings_at (ts ! i) q"
      using Cons.prems(6) Cons t by simp
    let ?c = "next_ref hx + length q - 1"
    from Cons.IH[OF sub qne _ _ _ sib, of m] rep alloc lv ti
    obtain h1 where
      rec: "traverse_rec m ?H (root (ts ! i)) st h = Some (Some ?c, h1)"
      and nx: "next_ref h1 = next_ref hx + length q"
      and f1: "frame hx h1"
      and rw: "rewritten h h1 (ts ! i) q ro ?c"
      by auto
    have "root (ts ! i) \<noteq> x" using sub Cons by simp
    then have at: "?v (?cs ! i) st h = Some (Some ?c, h1)"
      using rec i by (simp add: visit_rewrite)
    have "root (ts ! i) < next_ref h" using alloc ti root_in_refs[of "ts ! i"] by blast
    moreover have "next_ref h \<le> next_ref hx" using fr by (simp add: frame_def)
    moreover have "Suc 0 \<le> length q" using qne by (cases q) simp_all
    ultimately have "root (ts ! i) \<noteq> ?c" by linarith
    then have neq: "?c \<noteq> ?cs ! i" using i by auto
    then have ne': "Some ?c \<noteq> Some (?cs ! i)" by simp
    have f01: "frame h h1" using fr f1 by (rule frame_trans)
    let ?L = "take i ?cs @ survivors [Some ?c] @ drop (Suc i) ?cs"
    have nonempty: "?L \<noteq> []" by simp
    let ?h' = "snd (clone r ?L h1)"
    have tr: "traverse ?v r st h = Some (Some (next_ref h1), ?h')"
      using can cs ilen before at ne' after[OF f01] nonempty
      by (rule traverse_one_changed)
    have old: "store h1 r = store h r" using f01 r_alloc by (simp add: frame_def)
    have cl: "cloned_from h ?h' r (next_ref h1)"
      using f01 old by (simp add: cloned_from_def frame_def clone_def)
    have L: "?L = ?cs[i := ?c]"
      using ilen by (simp add: upd_conv_take_nth_drop)
    have ch: "children (store ?h' (next_ref h1)) = ?cs[i := ?c]"
      using L by simp
    have chi: "children (store ?h' (next_ref h1)) ! i = ?c"
      using ch ilen by simp
    have rw': "rewritten h ?h' (ts ! i) q ro ?c"
      using rw frame_clone[of h1 r ?L] rewritten_frame by blast
    have "rewritten h ?h' t (i # j # q') ro (next_ref h1)"
      using cl ch chi rw' t Cons by simp
    moreover have "frame hx ?h'"
      using f1 frame_clone[of h1 r ?L] frame_trans by blast
    ultimately show ?thesis
      using tr t n Cons nx by simp
  qed
qed

lemma traverse_rec_frame:
  assumes pure: "\<And>trav node st h res h'.
      (\<And>node st h res h'. trav node st h = Some (res, h') \<Longrightarrow> frame h h')
      \<Longrightarrow> visit H trav node st h = Some (res, h') \<Longrightarrow> frame h h'"
  shows "traverse_rec n H node st h = Some (res, h') \<Longrightarrow> frame h h'"
proof (induction n arbitrary: node st h res h')
  case 0
  then show ?case by simp
next
  case (Suc n)
  have "frame h1 h2" if "visit H (traverse_rec n H) c st h1 = Some (r, h2)" for c h1 r h2
    using pure[OF Suc.IH that] .
  then show ?case using Suc.prems traverse_frame_step[of h node "visit H (traverse_rec n H)" st res h']
    by simp
qed

lemma visit_seq_returns:
  assumes ret: "\<And>c g. c \<in> set cs \<Longrightarrow> frame h g \<Longrightarrow> \<exists>y. v c st g = Some y"
    and fr: "\<And>c h1 r h2. v c st h1 = Some (r, h2) \<Longrightarrow> frame h1 h2"
  shows "\<exists>y. visit_seq v st cs h = Some y"
  using ret
proof (induction cs arbitrary: h)
  case Nil
  then show ?case by simp
next
  case (Cons c cs)
  obtain r h1 where c: "v c st h = Some (r, h1)"
    using Cons.prems[of c h] by auto
  have f: "frame h h1" using fr[OF c] .
  have "\<exists>y. visit_seq v st cs h1 = Some y"
  proof (rule Cons.IH)
    fix c' g
    assume "c' \<in> set cs" "frame h1 g"
    then show "\<exists>y. v c' st g = Some y"
      using Cons.prems[of c' g] frame_trans[OF f] by simp
  qed
  then show ?case using c by auto
qed

lemma traverse_rec_returns:
  assumes local: "\<And>trav node st h. (\<And>st'. \<exists>y. trav node st' h = Some y)
      \<Longrightarrow> \<exists>y. visit H trav node st h = Some y"
    and pure: "\<And>trav node st h res h'.
      (\<And>node st h res h'. trav node st h = Some (res, h') \<Longrightarrow> frame h h')
      \<Longrightarrow> visit H trav node st h = Some (res, h') \<Longrightarrow> frame h h'"
  shows "reprs h t \<Longrightarrow> \<forall>a \<in> set (refs t). a < next_ref h \<Longrightarrow> levels t \<le> n
     \<Longrightarrow> \<exists>y. traverse_rec n H (root t) st h = Some y"
proof (induction n arbitrary: t st h)
  case 0
  then show ?case using levels_pos[of t] by simp
next
  case (Suc n)
  obtain r ts where t: "t = Tree r ts" by (cases t)
  let ?v = "visit H (traverse_rec n H)"
  show ?case
  proof (cases "canHaveSubselections (store h r)")
    case False
    then show ?thesis using t by (simp add: traverse_no_subselections)
  next
    case True
    have cs: "children (store h r) = map root ts" and rep: "\<forall>t' \<in> set ts. reprs h t'"
      using Suc.prems(1) True t by auto
    have lv: "\<forall>t' \<in> set ts. levels t' \<le> n"
      using Suc.prems(3) t levels_le_Suc by blast
    have alloc: "\<forall>t' \<in> set ts. \<forall>a \<in> set (refs t'). a < next_ref h"
      using Suc.prems(2) t by auto
    have fr: "frame h1 h2" if "?v c st h1 = Some (r', h2)" for c h1 r' h2
      using pure[OF traverse_rec_frame[OF pure] that] .
    have ret: "\<exists>y. ?v c st g = Some y" if c: "c \<in> set (map root ts)" and g: "frame h g" for c g
    proof -
      obtain t' where t': "t' \<in> set ts" and ct: "c = root t'" using c by auto
      have "reprs g t'" using reprs_frame[OF g] alloc rep t' by blast
      moreover have "\<forall>a \<in> set (refs t'). a < next_ref g"
        using alloc t' g by (fastforce simp: frame_def)
      ultimately have "\<exists>y. traverse_rec n H (root t') st' g = Some y" for st'
        using Suc.IH[of g t' st'] lv t' by blast
      then show ?thesis using local[of "traverse_rec n H" "root t'" g st] ct by blast
    qed
    obtain rs h1 where "visit_seq ?v st (map root ts) h = Some (rs, h1)"
      using visit_seq_returns[of "map root ts" h ?v st, OF ret fr] by fastforce
    then show ?thesis using True cs t by (simp add: traverse_char)
  qed
qed

lemma rewrite_delete_pure:
  assumes "\<And>node st h res h'. trav node st h = Some (res, h') \<Longrightarrow> frame h h'"
    and "visit (rewrite_handlers x delete_it) trav node st h = Some (res, h')"
  shows "frame h h'"
  using assms by (auto simp: visit_rewrite delete_it_def split: if_splits)

lemma rewrite_delete_local:
  assumes "\<And>st'. \<exists>y. trav node st' h = Some y"
  shows "\<exists>y. visit (rewrite_handlers x delete_it) trav node st h = Some y"
  using assms by (simp add: visit_rewrite delete_it_def)

section \<open>The loop over arrays in memory\<close>

lemma frame_m_refl [simp]: "frame_m m m"
  by (simp add: frame_m_def)







text \<open>
  The two embeddings agree: for a \<open>visit\<close> method that computes its result from the node and
  the state alone, \<open>traverse\<close> in the memory with arrays returns what \<open>traverse\<close> on lists
  returns, and leaves the memory that reads as the heap the latter leaves.
\<close>

lemma visit_seq_stateless:
  "visit_seq (stateless f) st cs h = Some (map (\<lambda>c. f c st) cs, h)"
  by (induction cs) (simp_all add: stateless_def)

lemma loop_m_char:
  assumes cs: "arrays mk ch = cs"
    and i: "i \<le> length cs"
    and acc: "case acc of Some a \<Rightarrow> a \<noteq> ch | None \<Rightarrow> ch \<noteq> next_array mk"
  shows "traverseChildren_m_loop (callback_m (stateless_m f) st) ch (length cs) i (acc, mk) =
     Some (case acc of
             Some a \<Rightarrow>
               (Some a, mk\<lparr>arrays := (arrays mk)
                            (a := arrays mk a @ survivors (drop i (map (\<lambda>c. f c st) cs)))\<rparr>)
           | None \<Rightarrow>
               if drop i (map (\<lambda>c. f c st) cs) = map Some (drop i cs) then (None, mk)
               else (Some (next_array mk),
                     mk\<lparr>arrays := (arrays mk)
                          (next_array mk := take i cs @ survivors (drop i (map (\<lambda>c. f c st) cs))),
                        next_array := Suc (next_array mk)\<rparr>))"
  using assms
proof (induction "length cs - i" arbitrary: i acc mk)
  case 0
  then show ?case
    by (cases acc) (simp_all add: traverseChildren_m_loop.simps)
next
  case (Suc k)
  let ?rs = "map (\<lambda>c. f c st) cs"
  from Suc have lt: "i < length cs" and k: "k = length cs - Suc i" by auto
  have dr: "drop i ?rs = f (cs ! i) st # drop (Suc i) ?rs"
    using lt by (simp add: Cons_nth_drop_Suc[symmetric])
  have dc: "drop i cs = cs ! i # drop (Suc i) cs"
    using lt by (simp add: Cons_nth_drop_Suc)
  have tk: "take (Suc i) cs = take i cs @ [cs ! i]"
    using lt by (simp add: take_Suc_conv_app_nth)
  have le: "Suc i \<le> length cs" using lt by simp
  show ?case
  proof (cases acc)
    case (Some a)
    have a: "a \<noteq> ch" using Suc.prems(3) Some by simp
    show ?thesis
    proof (cases "f (cs ! i) st")
      case None
      have step: "callback_m (stateless_m f) st (arrays mk ch ! i) i ch (Some a, mk) = Some (Some a, mk)"
        using lt Suc.prems(1) None by (simp add: callback_m_def stateless_m_def Let_def)
      have "traverseChildren_m_loop (callback_m (stateless_m f) st) ch (length cs) (Suc i) (Some a, mk)
          = Some (Some a, mk\<lparr>arrays := (arrays mk)(a := arrays mk a @ survivors (drop (Suc i) ?rs))\<rparr>)"
        using Suc.hyps(1)[OF k Suc.prems(1) le, of "Some a"] a by simp
      then show ?thesis using lt step Some None dr
        by (subst traverseChildren_m_loop.simps) simp
    next
      case (Some c)
      let ?m1 = "push a c mk"
      have step: "callback_m (stateless_m f) st (arrays mk ch ! i) i ch (Some a, mk) = Some (Some a, ?m1)"
        using lt Suc.prems(1) Some by (simp add: callback_m_def stateless_m_def Let_def)
      have cs1: "arrays ?m1 ch = cs" using Suc.prems(1) a by (simp add: push_def)
      have "traverseChildren_m_loop (callback_m (stateless_m f) st) ch (length cs) (Suc i) (Some a, ?m1)
          = Some (Some a, ?m1\<lparr>arrays := (arrays ?m1)(a := arrays ?m1 a @ survivors (drop (Suc i) ?rs))\<rparr>)"
        using Suc.hyps(1)[OF k cs1 le, of "Some a"] a by simp
      then show ?thesis using lt step \<open>acc = Some a\<close> Some dr
        by (subst traverseChildren_m_loop.simps) (simp add: push_def)
    qed
  next
    case None
    have chn: "ch \<noteq> next_array mk" using Suc.prems(3) None by simp
    show ?thesis
    proof (cases "f (cs ! i) st = Some (cs ! i)")
      case True
      have step: "callback_m (stateless_m f) st (arrays mk ch ! i) i ch (None, mk) = Some (None, mk)"
        using lt Suc.prems(1) True by (simp add: callback_m_def stateless_m_def Let_def)
      have "traverseChildren_m_loop (callback_m (stateless_m f) st) ch (length cs) (Suc i) (None, mk)
          = Some (if drop (Suc i) ?rs = map Some (drop (Suc i) cs) then (None, mk)
                  else (Some (next_array mk),
                        mk\<lparr>arrays := (arrays mk)
                             (next_array mk := take (Suc i) cs @ survivors (drop (Suc i) ?rs)),
                           next_array := Suc (next_array mk)\<rparr>))"
        using Suc.hyps(1)[OF k Suc.prems(1) le, of None] chn by simp
      then show ?thesis using lt step None True dr dc tk
        by (subst traverseChildren_m_loop.simps) simp
    next
      case False
      let ?a = "next_array mk"
      let ?m2 = "snd (slice ch i mk)"
      let ?m3 = "case f (cs ! i) st of None \<Rightarrow> ?m2 | Some c \<Rightarrow> push ?a c ?m2"
      have step: "callback_m (stateless_m f) st (arrays mk ch ! i) i ch (None, mk) = Some (Some ?a, ?m3)"
        using lt Suc.prems(1) False
        by (cases "f (cs ! i) st") (simp_all add: callback_m_def stateless_m_def Let_def slice_def)
      have cs3: "arrays ?m3 ch = cs" using Suc.prems(1) chn
        by (cases "f (cs ! i) st") (simp_all add: push_def slice_def)
      have "traverseChildren_m_loop (callback_m (stateless_m f) st) ch (length cs) (Suc i) (Some ?a, ?m3)
          = Some (Some ?a, ?m3\<lparr>arrays := (arrays ?m3)(?a := arrays ?m3 ?a @ survivors (drop (Suc i) ?rs))\<rparr>)"
        using Suc.hyps(1)[OF k cs3 le, of "Some ?a"] chn by simp
      moreover have "?m3\<lparr>arrays := (arrays ?m3)(?a := arrays ?m3 ?a @ survivors (drop (Suc i) ?rs))\<rparr>
          = mk\<lparr>arrays := (arrays mk)(?a := take i cs @ survivors (drop i ?rs)),
               next_array := Suc ?a\<rparr>"
        using Suc.prems(1) dr
        by (cases "f (cs ! i) st") (simp_all add: push_def slice_def)
      moreover have "drop i ?rs \<noteq> map Some (drop i cs)" using False dr dc by simp
      ultimately show ?thesis using lt step None
        by (subst traverseChildren_m_loop.simps) simp
    qed
  qed
qed


lemma heap_of_new_array:
  assumes "\<forall>r. getChildren (objects m r) < next_array m"
  shows "heap_of (m\<lparr>arrays := (arrays m)(next_array m := xs), next_array := n\<rparr>) = heap_of m"
proof -
  have "getChildren (objects m r) \<noteq> next_array m" for r
    using assms by (metis less_irrefl)
  then show ?thesis by (simp add: heap_of_def)
qed

lemma heap_of_clone:
  assumes "\<forall>r. getChildren (objects m r) < next_array m"
  shows "heap_of (snd (clone_m node (next_array m)
            (m\<lparr>arrays := (arrays m)(next_array m := xs), next_array := n\<rparr>)))
         = snd (clone node xs (heap_of m))"
proof -
  have ne: "getChildren (objects m r) \<noteq> next_array m" for r
    using assms by (metis less_irrefl)
  show ?thesis
    using ne by (auto simp: heap_of_def clone_m_def clone_def fun_eq_iff)
qed

lemma traverse_m_agrees:
  assumes wf: "\<forall>r. getChildren (objects m r) < next_array m"
  shows "map_option (\<lambda>(res, m'). (res, heap_of m')) (traverse_m (stateless_m f) node st m)
           = traverse (stateless f) node st (heap_of m)"
proof (cases "obj_canHaveSubselections (objects m node)")
  case False
  then show ?thesis
    by (simp add: traverse_m_def traverse_no_subselections heap_of_def)
next
  case True
  let ?ch = "getChildren (objects m node)"
  let ?cs = "arrays m ?ch"
  let ?rs = "map (\<lambda>c. f c st) ?cs"
  let ?m' = "m\<lparr>arrays := (arrays m)(next_array m := survivors ?rs),
                next_array := Suc (next_array m)\<rparr>"
  have can: "canHaveSubselections (store (heap_of m) node)"
    using True by (simp add: heap_of_def)
  have ch: "children (store (heap_of m) node) = ?cs" by (simp add: heap_of_def)
  have ne: "?ch \<noteq> next_array m" using wf by (metis less_irrefl)
  have loop: "traverseChildren_m node (callback_m (stateless_m f) st) (None, m) =
      Some (if ?rs = map Some ?cs then (None, m) else (Some (next_array m), ?m'))"
  proof -
    have "traverseChildren_m_loop (callback_m (stateless_m f) st) ?ch (length ?cs) 0 (None, m) =
      Some (if drop 0 ?rs = map Some (drop 0 ?cs) then (None, m)
            else (Some (next_array m),
                  m\<lparr>arrays := (arrays m)(next_array m := take 0 ?cs @ survivors (drop 0 ?rs)),
                    next_array := Suc (next_array m)\<rparr>))"
      using loop_m_char[of m ?ch ?cs 0 None f st] ne by simp
    then show ?thesis
      by (simp add: traverseChildren_m_def Let_def)
  qed
  have list: "traverse (stateless f) node st (heap_of m) =
      (if ?rs = map Some ?cs then Some (Some node, heap_of m)
       else if survivors ?rs = [] then Some (None, heap_of m)
       else Some (Some (next_object m), snd (clone node (survivors ?rs) (heap_of m))))"
    using can ch by (simp add: traverse_char visit_seq_stateless) (simp add: heap_of_def)
  have h1: "heap_of ?m' = heap_of m" using wf by (rule heap_of_new_array)
  have h2: "heap_of (snd (clone_m node (next_array m) ?m')) = snd (clone node (survivors ?rs) (heap_of m))"
    using wf by (rule heap_of_clone)
  have mem: "traverse_m (stateless_m f) node st m =
      (if ?rs = map Some ?cs then Some (Some node, m)
       else if survivors ?rs = [] then Some (None, ?m')
       else Some (Some (next_object m), snd (clone_m node (next_array m) ?m')))"
    using True loop by (simp add: traverse_m_def clone_m_def)
  show ?thesis
    unfolding mem list
    by (simp add: heap_of_new_array[OF wf] heap_of_clone[OF wf])
qed

section \<open>The example heap\<close>

lemma example_can5: "canHaveSubselections (store example_heap 5)"
  by (simp add: example_heap_def)

lemma example_children5: "children (store example_heap 5) = [1, 3, 4]"
  by (simp add: example_heap_def)

lemma example_seq5:
  "visit_seq example_visit () (children (store example_heap 5)) example_heap
     = Some ([Some 1, None, Some 4], example_heap)"
  by (simp add: example_children5 example_visit_def)

lemma example_reprs: "reprs example_heap example_tree"
  by (simp add: example_heap_def example_tree_def)

lemma example_levels: "levels example_tree = 3"
  by (simp add: example_tree_def)

lemma example_refs: "\<forall>a \<in> set (refs example_tree). a < next_ref example_heap"
  by (simp add: example_heap_def example_tree_def)

lemma example_only_at: "only_at 3 example_tree [1, 0]"
  by (simp add: example_tree_def)

lemma example_siblings: "siblings_at example_tree [1, 0] = 2"
  by (simp add: example_tree_def)

lemma example_delete:
  "traverse_rec 3 (rewrite_handlers 3 delete_it) 0 () example_heap = Some (Some 8, example_result)"
  by (simp add: numeral_3_eq_3 traverse_char visit_rewrite delete_it_def traverse_no_subselections
      example_heap_def example_result_def clone_def)

lemma example_can6: "canHaveSubselections (store example_heap 6)"
  by (simp add: example_heap_def)

lemma example_seq6:
  "visit_seq example_visit () (children (store example_heap 6)) example_heap
     = Some ([None], example_heap)"
  by (simp add: example_heap_def example_visit_def)

lemma example_seq5_identity:
  "visit_seq identity_visit () (children (store example_heap 5)) example_heap
     = Some ([Some 1, Some 3, Some 4], example_heap)"
  by (simp add: example_children5 identity_visit_def)



text \<open>A \<open>push\<close> onto the children array of an input node is a write that \<open>frame_m\<close> excludes.\<close>

lemma push_input_not_frame:
  "\<not> frame_m example_memory (push (getChildren (objects example_memory 5)) 4 example_memory)"
  by (simp add: frame_m_def push_def example_memory_def)

lemma example_only_at_2: "only_at 2 example_tree [1]"
  by (simp add: example_tree_def)

section \<open>Leaves\<close>

text \<open>
  C4. A node that cannot have subselections is returned as the same reference, in the same
  heap, for every state and every \<open>visit\<close> method \<open>v\<close>: also for one that never returns, so no
  child is visited, and the heap is the one given, so nothing is cloned.
\<close>

theorem traverse_leaf:
  "\<not> canHaveSubselections (store h node) \<Longrightarrow> traverse v node nextState h = Some (Some node, h)"
  by (simp add: traverse_def)

theorem traverse_leaf_witness:
  "\<not> canHaveSubselections (store example_heap 1)
   \<and> traverse (\<lambda>c st h. None) 1 () example_heap = Some (Some 1, example_heap)"
proof -
  have hyp: "\<not> canHaveSubselections (store example_heap 1)"
    by (simp add: example_heap_def)
  show ?thesis
    using hyp traverse_leaf [OF hyp] by simp
qed

section \<open>Identity preservation\<close>

text \<open>
  C1. When visiting the children of a node, one after the other, returns each child as the
  same reference (vacuously so when there are no children), \<open>traverse\<close> returns the node as
  the same reference, and the heap it leaves is the one the visits left (or the given one,
  for a node that cannot have subselections): \<open>traverse\<close> itself allocates nothing.
\<close>

theorem traverse_identity:
  assumes "visit_seq v st (children (store h node)) h = Some (map Some (children (store h node)), h')"
  shows "traverse v node st h =
           Some (Some node, if canHaveSubselections (store h node) then h' else h)"
  using assms by (simp add: traverse_char traverse_no_subselections)

theorem traverse_identity_witness:
  "visit_seq (\<lambda>c st h. Some (Some c, h)) () (children (store example_heap 5)) example_heap
     = Some (map Some (children (store example_heap 5)), example_heap)
   \<and> traverse (\<lambda>c st h. Some (Some c, h)) 5 () example_heap = Some (Some 5, example_heap)"
proof -
  have hyp: "visit_seq (\<lambda>c st h. Some (Some c, h)) () (children (store example_heap 5)) example_heap
     = Some (map Some (children (store example_heap 5)), example_heap)"
    by (simp add: example_heap_def)
  have can: "canHaveSubselections (store example_heap 5)"
    by (simp add: example_heap_def)
  show ?thesis
    using hyp traverse_identity [OF hyp] can by simp
qed

section \<open>Cascading deletion\<close>

text \<open>
  C2. A node with the children \<open>[A, B, C]\<close>, where \<open>visit\<close> returns \<open>A\<close> and \<open>C\<close> as they are
  and nothing for \<open>B\<close>: \<open>traverse\<close> returns a node that is not the original reference (the
  original being an allocated node) and whose children are \<open>[A, C]\<close>. A node with the only
  child \<open>D\<close>, where \<open>visit\<close> returns nothing for \<open>D\<close>: \<open>traverse\<close> returns nothing.
\<close>

theorem cascading_deletion:
  "(canHaveSubselections (store h node) \<and> children (store h node) = [A, B, C]
      \<and> v A st h = Some (Some A, h1) \<and> v B st h1 = Some (None, h2)
      \<and> v C st h2 = Some (Some C, h3) \<and> node < next_ref h3
    \<longrightarrow> (\<exists>r h'. traverse v node st h = Some (Some r, h') \<and> r \<noteq> node
           \<and> children (store h' r) = [A, C]))
   \<and> (canHaveSubselections (store g parent) \<and> children (store g parent) = [D]
        \<and> w D st' g = Some (None, g1)
      \<longrightarrow> traverse w parent st' g = Some (None, g1))"
  by (auto simp: traverse_char)

theorem cascading_deletion_witness:
  "(\<exists>r h'. traverse example_visit 5 () example_heap = Some (Some r, h') \<and> r \<noteq> 5
       \<and> children (store h' r) = [1, 4])
   \<and> traverse example_visit 6 () example_heap = Some (None, example_heap)"
  using cascading_deletion [where h = example_heap and node = 5 and A = 1 and B = 3 and C = 4
      and v = example_visit and st = "()" and ?h1.0 = example_heap and ?h2.0 = example_heap
      and ?h3.0 = example_heap and g = example_heap and parent = 6 and D = 3
      and w = example_visit and st' = "()" and ?g1.0 = example_heap]
  by (simp add: example_heap_def example_visit_def)

section \<open>Order preservation\<close>

text \<open>
  C3. For every node that can have subselections and every results \<open>rs\<close> of visiting its
  children: when every result is the child itself, \<open>traverse\<close> returns the original node,
  whose children are the surviving results; when no result is a node (and some child was
  there), it returns nothing; otherwise it returns the newly allocated node, whose children
  are exactly the surviving results. The surviving results are the results at the
  positions where the result is a node, in increasing position, each once: the order of the
  children they come from.
\<close>

theorem order_preservation:
  assumes "canHaveSubselections (store h node)"
    and "visit_seq v st (children (store h node)) h = Some (rs, h1)"
  shows "(rs = map Some (children (store h node)) \<longrightarrow>
            traverse v node st h = Some (Some node, h1)
            \<and> children (store h node) = survivors rs)
       \<and> (rs \<noteq> map Some (children (store h node)) \<and> survivors rs = [] \<longrightarrow>
            traverse v node st h = Some (None, h1))
       \<and> (rs \<noteq> map Some (children (store h node)) \<and> survivors rs \<noteq> [] \<longrightarrow>
            traverse v node st h
              = Some (Some (next_ref h1), snd (clone node (survivors rs) h1))
            \<and> children (store (snd (clone node (survivors rs) h1)) (next_ref h1)) = survivors rs)
       \<and> survivors rs = map (\<lambda>i. the (rs ! i))
                            (filter (\<lambda>i. rs ! i \<noteq> None) [0..<length (children (store h node))])"
  using assms survivors_positions[of rs] visit_seq_length[of v st "children (store h node)" h rs h1]
  by (simp add: traverse_char)

theorem order_preservation_witness:
  "traverse example_visit 5 () example_heap = Some (Some 7, snd (clone 5 [1, 4] example_heap))
   \<and> children (store (snd (clone 5 [1, 4] example_heap)) 7) = [1, 4]
   \<and> traverse example_visit 6 () example_heap = Some (None, example_heap)
   \<and> traverse identity_visit 5 () example_heap = Some (Some 5, example_heap)"
  using order_preservation [OF example_can5 example_seq5]
    order_preservation [OF example_can6 example_seq6]
    order_preservation [OF example_can5 example_seq5_identity]
  by (auto simp: example_children5 clone_def example_heap_def)

section \<open>The accumulator\<close>

text \<open>
  C5. One call of the callback, for the result \<open>nextChild\<close> of visiting the child at position
  \<open>index\<close>: an accumulator not yet started stays so when the result is the child itself
  (the same reference), and otherwise is started as the copy of the original children before
  \<open>index\<close>, followed by the result when it is a node; an accumulator already started is
  kept as it is, followed by the result when it is a node, and is never started again; a
  result that is nothing is left out. So after the loop the accumulator is not started when
  no result differs, and otherwise it is the original children before the first differing
  position followed by the later results that are nodes.
\<close>

theorem accumulator_initialization:
  "(v (cs ! index) st h = None \<longrightarrow> callback v st child index cs (acc0, h) = None)
   \<and> (v (cs ! index) st h = Some (nextChild, h') \<longrightarrow>
        callback v st child index cs (None, h)
          = Some (if nextChild = Some (cs ! index) then None
                  else Some (take index cs @ survivors [nextChild]), h')
        \<and> callback v st child index cs (Some acc, h)
          = Some (Some (acc @ survivors [nextChild]), h'))
   \<and> (visit_seq v st (children (store g node)) g = Some (rs, g') \<longrightarrow>
        traverseChildren node (callback v st) (None, g)
          = Some (map_option (\<lambda>i. take i (children (store g node)) @ survivors (drop i rs))
                    (first_differing (children (store g node)) rs), g'))"
proof (intro conjI impI)
  assume "v (cs ! index) st h = None"
  then show "callback v st child index cs (acc0, h) = None" by (simp add: callback_def)
next
  assume a: "v (cs ! index) st h = Some (nextChild, h')"
  show "callback v st child index cs (None, h)
          = Some (if nextChild = Some (cs ! index) then None
                  else Some (take index cs @ survivors [nextChild]), h')"
    using a by (cases nextChild) (simp_all add: callback_def)
  show "callback v st child index cs (Some acc, h)
          = Some (Some (acc @ survivors [nextChild]), h')"
    using a by (cases nextChild) (simp_all add: callback_def)
next
  assume s: "visit_seq v st (children (store g node)) g = Some (rs, g')"
  let ?cs = "children (store g node)"
  have len: "length rs = length ?cs" using s by (rule visit_seq_length)
  show "traverseChildren node (callback v st) (None, g)
          = Some (map_option (\<lambda>i. take i ?cs @ survivors (drop i rs)) (first_differing ?cs rs), g')"
  proof (cases "first_differing ?cs rs")
    case None
    then show ?thesis using s first_differing_None[OF len] by (simp add: traverseChildren_char)
  next
    case (Some i)
    then have "rs \<noteq> map Some ?cs" using first_differing_None[OF len] by auto
    then show ?thesis using s Some first_differing_Some[OF len Some]
      by (simp add: traverseChildren_char)
  qed
qed

theorem accumulator_initialization_witness:
  "callback example_visit () 1 0 [1, 3, 4] (None, example_heap) = Some (None, example_heap)
   \<and> callback example_visit () 3 1 [1, 3, 4] (None, example_heap) = Some (Some [1], example_heap)
   \<and> callback example_visit () 4 2 [1, 3, 4] (Some [1], example_heap) = Some (Some [1, 4], example_heap)
   \<and> traverseChildren 5 (callback example_visit ()) (None, example_heap)
       = Some (Some [1, 4], example_heap)
   \<and> traverseChildren 5 (callback identity_visit ()) (None, example_heap)
       = Some (None, example_heap)"
  using accumulator_initialization [where v = example_visit and cs = "[1, 3, 4]" and index = 0
          and st = "()" and h = example_heap and nextChild = "Some 1" and h' = example_heap
          and child = 1 and g = example_heap and node = 5 and rs = "[Some 1, None, Some 4]"
          and g' = example_heap]
    accumulator_initialization [where v = example_visit and cs = "[1, 3, 4]" and index = 1
          and st = "()" and h = example_heap and nextChild = None and h' = example_heap
          and child = 3 and g = example_heap and node = 5 and rs = "[Some 1, Some 3, Some 4]"
          and g' = example_heap]
    accumulator_initialization [where v = example_visit and cs = "[1, 3, 4]" and index = 2
          and st = "()" and h = example_heap and nextChild = "Some 4" and h' = example_heap
          and acc = "[1]" and child = 4 and g = example_heap and node = 5
          and rs = "[Some 1, None, Some 4]" and g' = example_heap]
    accumulator_initialization [where v = identity_visit and cs = "[1, 3, 4]" and index = 2
          and st = "()" and h = example_heap and nextChild = "Some 4" and h' = example_heap
          and acc = "[1]" and child = 4 and g = example_heap and node = 5
          and rs = "[Some 1, Some 3, Some 4]" and g' = example_heap]
    example_seq5 example_seq5_identity
  by (simp add: example_visit_def identity_visit_def example_children5)

section \<open>Input immutability\<close>



section \<open>Clone discipline and result shape\<close>

text \<open>
  C10. A node that cannot have subselections: \<open>traverse\<close> returns the original reference in
  the given heap. A node that can, with the results \<open>rs\<close> of visiting its children: when
  every result is the child itself (the accumulator was never started), the original
  reference in the heap the visits left; when the accumulator was started and every result
  is nothing, nothing, in the heap the visits left; otherwise the node allocated by one
  \<open>clone\<close> of the original node with the surviving results, which are not empty, in the
  heap that this one \<open>clone\<close> leaves. It returns nothing exactly when there are results and
  all of them are nothing, and it has no result when a visit has none.
\<close>

theorem traverse_result_shape:
  "(\<not> canHaveSubselections (store h node) \<longrightarrow> traverse v node st h = Some (Some node, h))
   \<and> (canHaveSubselections (store h node)
        \<and> visit_seq v st (children (store h node)) h = Some (rs, h1) \<longrightarrow>
          traverse v node st h =
            (if rs = map Some (children (store h node)) then Some (Some node, h1)
             else if \<forall>r \<in> set rs. r = None then Some (None, h1)
             else Some (Some (fst (clone node (survivors rs) h1)),
                        snd (clone node (survivors rs) h1)))
          \<and> ((\<exists>r \<in> set rs. r \<noteq> None) \<longrightarrow> survivors rs \<noteq> [])
          \<and> ((\<exists>h'. traverse v node st h = Some (None, h'))
               \<longleftrightarrow> rs \<noteq> [] \<and> (\<forall>r \<in> set rs. r = None)))
   \<and> (canHaveSubselections (store h node)
        \<and> visit_seq v st (children (store h node)) h = None \<longrightarrow>
          traverse v node st h = None)"
proof -
  have "rs = map Some (children (store h node)) \<Longrightarrow> (\<forall>r \<in> set rs. r = None) \<Longrightarrow> rs = []"
    by (cases rs) auto
  then show ?thesis
    using visit_seq_length[of v st "children (store h node)" h rs h1]
    by (auto simp: traverse_char traverse_no_subselections survivors_Nil_iff)
qed

theorem traverse_result_shape_witness:
  "traverse example_visit 5 () example_heap = Some (Some 7, snd (clone 5 [1, 4] example_heap))
   \<and> next_ref (snd (clone 5 [1, 4] example_heap)) = 8
   \<and> traverse example_visit 6 () example_heap = Some (None, example_heap)
   \<and> traverse identity_visit 5 () example_heap = Some (Some 5, example_heap)
   \<and> traverse example_visit 1 () example_heap = Some (Some 1, example_heap)"
  using traverse_result_shape [of example_heap 5 example_visit "()" "[Some 1, None, Some 4]" example_heap]
    traverse_result_shape [of example_heap 6 example_visit "()" "[None]" example_heap]
    traverse_result_shape [of example_heap 5 identity_visit "()" "[Some 1, Some 3, Some 4]" example_heap]
    traverse_result_shape [of example_heap 1 example_visit "()" "[]" example_heap]
    example_can5 example_can6 example_seq5 example_seq6 example_seq5_identity
  by (auto simp: example_children5 clone_def example_heap_def)

section \<open>Structural sharing\<close>

text \<open>
  C6, as amended. A rewrite changes exactly the node \<open>x\<close>, a descendant at depth
  \<open>d = length p\<close> below the root of a finite tree of allocated nodes, into \<open>ro\<close>, leaving the
  heap \<open>hx\<close>; when it deletes \<open>x\<close>, the parent of \<open>x\<close> has another child. Then \<open>traverse\<close>
  returns a new root; the new nodes are those the handler allocated for \<open>x\<close> and exactly
  \<open>d\<close> more, one \<open>clone\<close> for each ancestor of \<open>x\<close> from its parent up to the root: \<open>d + 1\<close>
  new nodes when the handler allocated one node (the replacement is a new clone), \<open>d\<close> when it
  allocated none (a deletion). \<open>traverse\<close> writes to no node that existed, and on every level
  of the path all the siblings are the original references.
\<close>

theorem structural_sharing:
  assumes "reprs h t" and "\<forall>a \<in> set (refs t). a < next_ref h"
    and "only_at x t p" and "p \<noteq> []" and "levels t \<le> n"
    and "repl h = Some (ro, hx)" and "frame h hx" and "ro \<noteq> Some x"
    and "ro = None \<longrightarrow> 2 \<le> siblings_at t p"
  shows "\<exists>r' h'. traverse_rec n (rewrite_handlers x repl) (root t) st h = Some (Some r', h')
           \<and> next_ref h' = next_ref h + (next_ref hx - next_ref h) + length p
           \<and> (hx = h \<longrightarrow> next_ref h' = next_ref h + length p)
           \<and> (next_ref hx = Suc (next_ref h) \<longrightarrow> next_ref h' = next_ref h + (length p + 1))
           \<and> frame hx h' \<and> rewritten h h' t p ro r'"
proof -
  have "next_ref h \<le> next_ref hx" using assms(7) by (simp add: frame_def)
  then show ?thesis
    using assms traverse_rec_rewrite [where repl = repl and h = h and ro = ro and hx = hx
      and x = x and t = t and p = p and n = n and st = st]
    by auto
qed

theorem structural_sharing_witness:
  "(\<exists>r' h'. traverse_rec 3 (rewrite_handlers 2 (replace_by_clone 2 [4])) (root example_tree) ()
                  example_heap = Some (Some r', h')
         \<and> next_ref h' = next_ref example_heap + (1 + 1)
         \<and> rewritten example_heap h' example_tree [1] (Some 7) r')
   \<and> (\<exists>r' h'. traverse_rec 3 (rewrite_handlers 3 delete_it) (root example_tree) () example_heap
                 = Some (Some r', h')
         \<and> next_ref h' = next_ref example_heap + 2
         \<and> rewritten example_heap h' example_tree [1, 0] None r')"
proof -
  have lv: "levels example_tree \<le> 3" using example_levels by simp
  have repl: "replace_by_clone 2 [4] example_heap
                = Some (Some 7, snd (clone 2 [4] example_heap))"
    by (simp add: replace_by_clone_def clone_def example_heap_def)
  have nx: "next_ref (snd (clone 2 [4] example_heap)) = Suc (next_ref example_heap)"
    by simp
  have sib: "Some (7::ref) = None \<longrightarrow> 2 \<le> siblings_at example_tree [1]" by simp
  have one: "\<exists>r' h'. traverse_rec 3 (rewrite_handlers 2 (replace_by_clone 2 [4]))
                  (root example_tree) () example_heap = Some (Some r', h')
         \<and> next_ref h' = next_ref example_heap
                + (next_ref (snd (clone 2 [4] example_heap)) - next_ref example_heap) + length [1::nat]
         \<and> (snd (clone 2 [4] example_heap) = example_heap
              \<longrightarrow> next_ref h' = next_ref example_heap + length [1::nat])
         \<and> (next_ref (snd (clone 2 [4] example_heap)) = Suc (next_ref example_heap)
              \<longrightarrow> next_ref h' = next_ref example_heap + (length [1::nat] + 1))
         \<and> frame (snd (clone 2 [4] example_heap)) h'
         \<and> rewritten example_heap h' example_tree [1] (Some 7) r'"
    using example_reprs example_refs example_only_at_2 lv repl sib frame_clone[of example_heap 2 "[4]"]
    by (intro structural_sharing [where repl = "replace_by_clone 2 [4]" and h = example_heap
          and ro = "Some 7" and hx = "snd (clone 2 [4] example_heap)" and x = 2
          and t = example_tree and p = "[1]" and n = 3])
       simp_all
  have repl2: "delete_it example_heap = Some (None, example_heap)" by (simp add: delete_it_def)
  have sib2: "(None :: ref option) = None \<longrightarrow> 2 \<le> siblings_at example_tree [1, 0]"
    using example_siblings by simp
  have two: "\<exists>r' h'. traverse_rec 3 (rewrite_handlers 3 delete_it) (root example_tree) () example_heap
                 = Some (Some r', h')
         \<and> next_ref h' = next_ref example_heap + (next_ref example_heap - next_ref example_heap)
                + length [1::nat, 0]
         \<and> (example_heap = example_heap \<longrightarrow> next_ref h' = next_ref example_heap + length [1::nat, 0])
         \<and> (next_ref example_heap = Suc (next_ref example_heap)
              \<longrightarrow> next_ref h' = next_ref example_heap + (length [1::nat, 0] + 1))
         \<and> frame example_heap h'
         \<and> rewritten example_heap h' example_tree [1, 0] None r'"
    using example_reprs example_refs example_only_at lv repl2 sib2
    by (intro structural_sharing [where repl = delete_it and h = example_heap and ro = None
          and hx = example_heap and x = 3 and t = example_tree and p = "[1, 0]" and n = 3])
       simp_all
  show ?thesis
  proof
    show "\<exists>r' h'. traverse_rec 3 (rewrite_handlers 2 (replace_by_clone 2 [4])) (root example_tree) ()
                  example_heap = Some (Some r', h')
         \<and> next_ref h' = next_ref example_heap + (1 + 1)
         \<and> rewritten example_heap h' example_tree [1] (Some 7) r'"
      using one nx by auto
    show "\<exists>r' h'. traverse_rec 3 (rewrite_handlers 3 delete_it) (root example_tree) () example_heap
                 = Some (Some r', h')
         \<and> next_ref h' = next_ref example_heap + 2
         \<and> rewritten example_heap h' example_tree [1, 0] None r'"
      using two by auto
  qed
qed

text \<open>
  The count \<open>d + 1\<close> for every change fails on the query
  \<open>Root[FieldA, FragmentB[FieldC, FieldD]]\<close> when \<open>FieldC\<close>, at depth 2, is deleted:
  \<open>FragmentB'\<close> and \<open>Root'\<close> are the only new nodes.
\<close>

theorem structural_sharing_counterexample:
  "reprs example_heap example_tree \<and> only_at 3 example_tree [1, 0]
   \<and> traverse_rec 3 (rewrite_handlers 3 delete_it) (root example_tree) () example_heap
       = Some (Some 8, example_result)
   \<and> next_ref example_result = next_ref example_heap + length [1::nat, 0]
   \<and> next_ref example_result \<noteq> next_ref example_heap + (length [1::nat, 0] + 1)"
  using example_reprs example_only_at example_delete
  by (simp add: example_tree_def) (simp add: example_heap_def example_result_def)

section \<open>Idempotence of the identity transform\<close>

text \<open>
  C7. With the default handlers, visiting the root of a finite tree returns the root as the
  same reference and the heap as it was, so every node below it is the same reference too;
  visiting the result once more gives the same again.
\<close>

theorem identity_idempotent:
  assumes "reprs h t" and "levels t \<le> n"
  shows "twice (visit_rec n default_handlers) (root t) st h
           = visit_rec n default_handlers (root t) st h
         \<and> visit_rec n default_handlers (root t) st h = Some (Some (root t), h)"
  using assms by (simp add: twice_def visit_rec_def traverse_rec_default)

theorem identity_idempotent_witness:
  "reprs example_heap example_tree \<and> levels example_tree \<le> 3
   \<and> twice (visit_rec 3 default_handlers) 0 () example_heap = Some (Some 0, example_heap)"
  using identity_idempotent [OF example_reprs, of 3 "()"] example_reprs example_levels
  by (simp add: example_tree_def)

section \<open>Termination and recursion depth\<close>

text \<open>
  C8. Take a finite tree of allocated nodes and handlers that write to no allocated node and
  return whenever \<open>traverse\<close> on their node returns (the default handlers, a handler that
  drops its node, a handler that works on the result of \<open>traverse\<close>). Then \<open>traverse\<close> on
  the root returns when it is allowed as many nested \<open>traverse\<close> frames as the tree has
  levels. With the default handlers it returns exactly then: the recursion ends, every
  level adds one frame, and the greatest depth of the recursion is the depth of the tree,
  counted in levels.
\<close>

theorem traverse_rec_terminates:
  assumes "reprs h t" and "\<forall>a \<in> set (refs t). a < next_ref h"
    and "\<And>trav node st h. (\<And>st'. \<exists>y. trav node st' h = Some y)
           \<Longrightarrow> \<exists>y. visit H trav node st h = Some y"
    and "\<And>trav node st h res h'.
           (\<And>node st h res h'. trav node st h = Some (res, h') \<Longrightarrow> frame h h')
           \<Longrightarrow> visit H trav node st h = Some (res, h') \<Longrightarrow> frame h h'"
  shows "(levels t \<le> n \<longrightarrow> (\<exists>y. traverse_rec n H (root t) st h = Some y))
       \<and> ((\<exists>y. traverse_rec n default_handlers (root t) st h = Some y) = (levels t \<le> n))"
proof
  show "levels t \<le> n \<longrightarrow> (\<exists>y. traverse_rec n H (root t) st h = Some y)"
    using traverse_rec_returns[of H h t n st] assms by blast
  show "(\<exists>y. traverse_rec n default_handlers (root t) st h = Some y) = (levels t \<le> n)"
    using assms(1) by (simp add: traverse_rec_default)
qed

theorem traverse_rec_terminates_witness:
  "reprs example_heap example_tree \<and> levels example_tree = 3
   \<and> (\<exists>y. traverse_rec 3 (rewrite_handlers 3 delete_it) (root example_tree) () example_heap = Some y)
   \<and> (\<exists>y. traverse_rec 3 default_handlers (root example_tree) () example_heap = Some y)
   \<and> (\<nexists>y. traverse_rec 2 default_handlers (root example_tree) () example_heap = Some y)"
proof -
  let ?H = "rewrite_handlers 3 delete_it :: unit handlers"
  have loc: "\<exists>y. visit ?H trav node st h = Some y"
    if "\<And>st'. \<exists>y. trav node st' h = Some y" for trav node st h
    using that by (rule rewrite_delete_local)
  have pure: "frame h h'"
    if "\<And>node st h res h'. trav node st h = Some (res, h') \<Longrightarrow> frame h h'"
      and "visit ?H trav node st h = Some (res, h')" for trav node st h res h'
    using that by (rule rewrite_delete_pure)
  have three: "(levels example_tree \<le> 3 \<longrightarrow>
        (\<exists>y. traverse_rec 3 ?H (root example_tree) () example_heap = Some y))
      \<and> ((\<exists>y. traverse_rec 3 default_handlers (root example_tree) () example_heap = Some y)
           = (levels example_tree \<le> 3))"
    using example_reprs example_refs loc pure by (rule traverse_rec_terminates)
  have two: "(levels example_tree \<le> 2 \<longrightarrow>
        (\<exists>y. traverse_rec 2 ?H (root example_tree) () example_heap = Some y))
      \<and> ((\<exists>y. traverse_rec 2 default_handlers (root example_tree) () example_heap = Some y)
           = (levels example_tree \<le> 2))"
    using example_reprs example_refs loc pure by (rule traverse_rec_terminates)
  show ?thesis
    using three two example_reprs example_levels by simp
qed

end
